theory Spec2Isabelle
  imports Main "HOL-Library.Char_ord" "HOL-Library.List_Lexorder" "HOL-Library.AList"
begin

section \<open>Strings\<close>

text \<open>
  Python strings are modelled as \<open>string\<close>, one \<open>char\<close> per character, which
  covers the code points below 256. The characters that matter to the generator are
  ASCII: the letters that \<open>str.lower\<close> changes, the white list of \<open>urlize\<close>, the
  dot of a file name and the white space that \<open>str.strip\<close> removes. A character
  outside ASCII is left alone by \<open>lower_char\<close>: below 256 its lower case is again
  outside ASCII, and \<open>urlize\<close> replaces it by an underscore whatever its case.
\<close>

definition lower_char :: "char \<Rightarrow> char" where
  "lower_char c =
     (if CHR ''A'' \<le> c \<and> c \<le> CHR ''Z''
      then ''abcdefghijklmnopqrstuvwxyz'' ! (of_char c - of_char (CHR ''A''))
      else c)"

definition lower :: "string \<Rightarrow> string" where
  "lower s = map lower_char s"

section \<open>generator.py: urlize\<close>

text \<open>
  \<^verbatim>\<open>CHAR_WHITELIST = 'a-z0-9-_'\<close>: inside the character class
  \<^verbatim>\<open>[^a-z0-9-_]\<close> this reads as the ranges a-z and 0-9, a literal hyphen and
  a literal underscore.
\<close>

definition whitelisted :: "char \<Rightarrow> bool" where
  "whitelisted c =
     ((CHR ''a'' \<le> c \<and> c \<le> CHR ''z'') \<or> (CHR ''0'' \<le> c \<and> c \<le> CHR ''9'')
      \<or> c = CHR ''-'' \<or> c = CHR ''_'')"

text \<open>\<^verbatim>\<open>re.sub(f'[^{CHAR_WHITELIST}]', '_', text.lower())\<close>\<close>

definition urlize :: "string \<Rightarrow> string" where
  "urlize s = map (\<lambda>c. if whitelisted c then c else CHR ''_'') (lower s)"

section \<open>generator.py: reorder_children\<close>

text \<open>
  The metadata of a page, as the Meta extension of the Markdown engine delivers it: a
  dictionary from keys to the list of the lines given for the key.
\<close>

type_synonym meta = "string \<rightharpoonup> string list"

text \<open>
  \<open>reorder_children\<close> builds \<^verbatim>\<open>rest\<close> as a Python set and appends
  \<^verbatim>\<open>list(rest)\<close>. The order in which a set of strings is iterated depends on
  the hashes of its elements and is not fixed by the source, so the model takes it as a
  parameter \<open>list_of\<close>; \<open>set_iteration\<close> says what every iteration order
  provides: each element of the set, once.
\<close>

definition set_iteration :: "(string set \<Rightarrow> string list) \<Rightarrow> bool" where
  "set_iteration list_of = (\<forall>S. finite S \<longrightarrow> set (list_of S) = S \<and> distinct (list_of S))"

definition reorder_children ::
  "(string set \<Rightarrow> string list) \<Rightarrow> string list \<Rightarrow> meta \<Rightarrow> string list" where
  "reorder_children list_of children meta =
     (case meta ''children'' of
        None \<Rightarrow> children
      | Some parsed_children \<Rightarrow>
          (let rest = set children - set parsed_children;
               new_order = filter (\<lambda>child. child \<in> set children) parsed_children
           in new_order @ list_of rest))"

section \<open>Errors\<close>

text \<open>
  Every exception that the modelled code can raise is a value: \<open>SameNameError\<close> and
  \<open>UnknownLocalLinkWarning\<close> (raised as an error when the warning filter is
  \<^verbatim>\<open>"error"\<close>) of CustomExceptions.py, and the built-in \<open>KeyError\<close>,
  \<open>TypeError\<close> and \<open>ValueError\<close>.
\<close>

datatype error =
    SameNameError string
  | UnknownLocalLinkWarning string
  | KeyError string
  | TypeError
  | ValueError string

section \<open>config.py\<close>

record config =
  INPUT_DIRECTORY :: string
  MEDIA_DIRECTORY :: string
  STRICT :: bool

section \<open>Paths\<close>

text \<open>
  A \<^verbatim>\<open>pathlib.Path\<close> is the list of its components (\<^verbatim>\<open>parts\<close>); the
  paths of the walk are relative, so there is no anchor. \<open>path_name\<close>,
  \<open>path_suffix\<close>, \<open>path_stem\<close> and \<open>path_parent\<close> are the properties
  \<^verbatim>\<open>name\<close>, \<^verbatim>\<open>suffix\<close>, \<^verbatim>\<open>stem\<close> and \<^verbatim>\<open>parent\<close>:
  the suffix starts at the last dot of the name, unless that dot is the first or the last
  character; the parent of a path of one component is \<^verbatim>\<open>Path('.')\<close>, which has
  no component and the empty name.
\<close>

type_synonym path = "string list"

definition rfind_dot :: "string \<Rightarrow> nat option" where
  "rfind_dot s =
     (if CHR ''.'' \<in> set s
      then Some (length s - 1 - length (takeWhile (\<lambda>c. c \<noteq> CHR ''.'') (rev s)))
      else None)"

definition has_suffix :: "string \<Rightarrow> bool" where
  "has_suffix s = (case rfind_dot s of None \<Rightarrow> False | Some i \<Rightarrow> 0 < i \<and> i + 1 < length s)"

definition path_name :: "path \<Rightarrow> string" where
  "path_name p = (if p = [] then [] else last p)"

definition path_suffix :: "path \<Rightarrow> string" where
  "path_suffix p =
     (if has_suffix (path_name p) then drop (the (rfind_dot (path_name p))) (path_name p)
      else [])"

definition path_stem :: "path \<Rightarrow> string" where
  "path_stem p =
     (if has_suffix (path_name p) then take (the (rfind_dot (path_name p))) (path_name p)
      else path_name p)"

definition path_parent :: "path \<Rightarrow> path" where
  "path_parent p = butlast p"

definition startswith :: "string \<Rightarrow> string \<Rightarrow> bool" where
  "startswith s pre = (take (length pre) s = pre)"

text \<open>\<^verbatim>\<open>str(path)\<close>: the components joined by a slash.\<close>

fun str_path :: "path \<Rightarrow> string" where
  "str_path [] = ''.''"
| "str_path [a] = a"
| "str_path (a # b # p) = a @ ''/'' @ str_path (b # p)"

section \<open>generator.py: parse_input_directory\<close>

text \<open>
  An item of the walk is a path together with what \<^verbatim>\<open>is_file()\<close> answers for it.
  The three results of the walker: the pages table (name to source and output path), the
  navigation table (name to parent name and list of children names) and the list of
  media files.
\<close>

record item =
  parts :: path
  is_file :: bool

type_synonym pages = "string \<rightharpoonup> (path option \<times> path)"
type_synonym navigation = "string \<rightharpoonup> (string option \<times> string list)"
type_synonym media = "(path \<times> path) list"

definition hidden :: "item \<Rightarrow> bool" where
  "hidden it = list_ex (\<lambda>part. startswith part ''.'') (parts it)"

text \<open>
  The last three statements of the loop body (lines 89 to 94): append the name to the
  children of the parent's entry, raise if the name is a key of the table already, add
  an entry for the name. A parent without an entry is the \<open>KeyError\<close> of the
  subscription.
\<close>

definition add_to_navigation ::
  "navigation \<Rightarrow> string \<Rightarrow> string \<Rightarrow> error + navigation" where
  "add_to_navigation navigation parent_stem stem =
     (case navigation parent_stem of
        None \<Rightarrow> Inl (KeyError parent_stem)
      | Some (grandparent, children) \<Rightarrow>
          (let navigation1 = navigation(parent_stem \<mapsto> (grandparent, children @ [stem]))
           in if stem \<in> dom navigation1 then Inl (SameNameError stem)
              else Inr (navigation1(stem \<mapsto> (Some parent_stem, [])))))"

text \<open>
  The body of the loop for one item. \<open>exists\<close> answers
  \<^verbatim>\<open>description_file.exists()\<close>.
\<close>

definition walk_item ::
  "config \<Rightarrow> (path \<Rightarrow> bool) \<Rightarrow> pages \<times> navigation \<times> media \<Rightarrow> item
    \<Rightarrow> error + pages \<times> navigation \<times> media" where
  "walk_item cfg exists st it =
     (case st of (pages, navigation, media) \<Rightarrow>
      if hidden it then Inr (pages, navigation, media)
      else if is_file it \<and> path_suffix (parts it) \<noteq> ''.md''
      then Inr (pages, navigation,
                media @ [(parts it,
                          [MEDIA_DIRECTORY cfg,
                           urlize (path_stem (parts it)) @ path_suffix (parts it)])])
      else if is_file it \<and> path_stem (parts it) = path_stem (path_parent (parts it))
      then Inr (pages, navigation, media)
      else
        (let stem = path_stem (parts it);
             pages1 =
               (if is_file it
                then pages(stem \<mapsto> (Some (parts it), [urlize stem @ ''.html'']))
                else
                  (let is_root = (length (parts it) = 1);
                       description_file = parts it @ [stem @ ''.md''];
                       output_path =
                         (if is_root then [''index.html''] else [urlize stem @ ''.html''])
                   in pages(stem \<mapsto>
                        (if exists description_file then Some description_file else None,
                         output_path))))
         in case add_to_navigation navigation (path_stem (path_parent (parts it))) stem of
              Inl e \<Rightarrow> Inl e
            | Inr navigation1 \<Rightarrow> Inr (pages1, navigation1, media)))"

text \<open>The loop: the items in order, stopping at the first exception.\<close>

fun walk_items ::
  "config \<Rightarrow> (path \<Rightarrow> bool) \<Rightarrow> pages \<times> navigation \<times> media \<Rightarrow> item list
    \<Rightarrow> error + pages \<times> navigation \<times> media" where
  "walk_items cfg exists st [] = Inr st"
| "walk_items cfg exists st (it # items) =
     (case walk_item cfg exists st it of
        Inl e \<Rightarrow> Inl e
      | Inr st1 \<Rightarrow> walk_items cfg exists st1 items)"

text \<open>
  \<open>parse_input_directory\<close>: \<open>path\<close> is the input directory and \<open>globbed\<close> is
  what \<^verbatim>\<open>path.glob('**/*')\<close> yields, in the order in which it yields it.
\<close>

definition parse_input_directory ::
  "config \<Rightarrow> (path \<Rightarrow> bool) \<Rightarrow> item \<Rightarrow> item list \<Rightarrow> error + pages \<times> navigation \<times> media" where
  "parse_input_directory cfg exists path globbed =
     walk_items cfg exists (Map.empty, [[] \<mapsto> (None, [])], []) (path # globbed)"

section \<open>generator.py: make_links\<close>

type_synonym links = "string \<rightharpoonup> path"


section \<open>Vocabulary for the claims about the walker\<close>

text \<open>
  The kinds of item that the loop body tells apart. A hidden item has a component that
  starts with a dot and is skipped. A media entry is a file whose suffix is not
  \<^verbatim>\<open>.md\<close>. A page entry is a markdown file that is not the description file of
  its directory (its stem differs from its parent's). A directory entry is an item that
  is not a file. Directory and page entries are the ones that reach the navigation table;
  \<open>entry_names\<close> lists their names (stems) in the order of the walk.
\<close>

definition is_media_entry :: "item \<Rightarrow> bool" where
  "is_media_entry it = (\<not> hidden it \<and> is_file it \<and> path_suffix (parts it) \<noteq> ''.md'')"

definition is_page_entry :: "item \<Rightarrow> bool" where
  "is_page_entry it =
     (\<not> hidden it \<and> is_file it \<and> path_suffix (parts it) = ''.md''
      \<and> path_stem (parts it) \<noteq> path_stem (path_parent (parts it)))"

definition is_dir_entry :: "item \<Rightarrow> bool" where
  "is_dir_entry it = (\<not> hidden it \<and> \<not> is_file it)"

definition is_entry :: "item \<Rightarrow> bool" where
  "is_entry it = (is_dir_entry it \<or> is_page_entry it)"

definition entry_names :: "item list \<Rightarrow> string list" where
  "entry_names items = map (\<lambda>it. path_stem (parts it)) (filter is_entry items)"

definition media_entries :: "config \<Rightarrow> item list \<Rightarrow> media" where
  "media_entries cfg items =
     map (\<lambda>it. (parts it,
                 [MEDIA_DIRECTORY cfg, urlize (path_stem (parts it)) @ path_suffix (parts it)]))
       (filter is_media_entry items)"

text \<open>
  \<open>first_dup seen names\<close> is the first of \<open>names\<close> that is in \<open>seen\<close> or
  occurs earlier in \<open>names\<close>.
\<close>

fun first_dup :: "string list \<Rightarrow> string list \<Rightarrow> string option" where
  "first_dup seen [] = None"
| "first_dup seen (n # names) =
     (if n \<in> set seen then Some n else first_dup (n # seen) names)"

text \<open>
  The order of a walk: an item is the input directory itself (a path of one component)
  or comes after the directory that contains it. \<^verbatim>\<open>chain([path], path.glob('**/*'))\<close>
  yields the items in such an order: the input directory first, and the entries of a
  directory only once the directory itself has been yielded.
\<close>

fun walk_order :: "item list \<Rightarrow> item list \<Rightarrow> bool" where
  "walk_order seen [] = True"
| "walk_order seen (it # items) =
     ((length (parts it) = 1
       \<or> list_ex (\<lambda>d. \<not> is_file d \<and> parts d = path_parent (parts it)) seen)
      \<and> walk_order (seen @ [it]) items)"

definition tree_walk :: "item \<Rightarrow> item list \<Rightarrow> bool" where
  "tree_walk path globbed = walk_order [] (path # globbed)"

text \<open>
  Reading a navigation table: the parent of a name, its children, and the name reached
  by following parent links \<open>n\<close> times. \<open>nav_tree\<close> says that the table is a tree
  rooted at the empty name: the root has an entry and no parent; every other key has a
  parent that is a key and lists it among its children exactly once; the children of a
  key name that key as their parent; and every key reaches the root by parent links (so
  no key lies on a cycle).
\<close>

definition nav_parent :: "navigation \<Rightarrow> string \<Rightarrow> string option" where
  "nav_parent nav k = (case nav k of None \<Rightarrow> None | Some (parent, children) \<Rightarrow> parent)"

definition nav_children :: "navigation \<Rightarrow> string \<Rightarrow> string list" where
  "nav_children nav k = (case nav k of None \<Rightarrow> [] | Some (parent, children) \<Rightarrow> children)"

fun climb :: "navigation \<Rightarrow> nat \<Rightarrow> string \<Rightarrow> string option" where
  "climb nav 0 k = Some k"
| "climb nav (Suc n) k =
     (case nav_parent nav k of None \<Rightarrow> None | Some p \<Rightarrow> climb nav n p)"

definition nav_tree :: "navigation \<Rightarrow> bool" where
  "nav_tree nav =
     ([] \<in> dom nav \<and> nav_parent nav [] = None
      \<and> (\<forall>k \<in> dom nav. k \<noteq> [] \<longrightarrow>
            (\<exists>p. nav_parent nav k = Some p \<and> p \<in> dom nav
                 \<and> count_list (nav_children nav p) k = 1))
      \<and> (\<forall>p. \<forall>c \<in> set (nav_children nav p). nav_parent nav c = Some p)
      \<and> (\<forall>k \<in> dom nav. \<exists>n. climb nav n k = Some []))"

text \<open>Notation for writing down a walk: a directory item, a file item, a configuration.\<close>

abbreviation Dir :: "path \<Rightarrow> item" where
  "Dir p \<equiv> \<lparr>parts = p, is_file = False\<rparr>"

abbreviation File :: "path \<Rightarrow> item" where
  "File p \<equiv> \<lparr>parts = p, is_file = True\<rparr>"

abbreviation notes_config :: "bool \<Rightarrow> config" where
  "notes_config strict \<equiv>
     \<lparr>INPUT_DIRECTORY = ''notes'', MEDIA_DIRECTORY = ''media'', STRICT = strict\<rparr>"

section \<open>CustomMDExtension.py: the element tree\<close>

text \<open>
  An \<^verbatim>\<open>xml.etree.ElementTree.Element\<close>: its tag, its attribute dictionary (in
  insertion order), its text (the text before the first child; \<open>None\<close> when absent),
  its tail (the text after the element, up to the next sibling) and its child elements.
\<close>

datatype element =
  Element (tag: string) (attrib: "(string \<times> string) list") (el_text: "string option")
    (el_tail: "string option") (subelements: "element list")

text \<open>\<^verbatim>\<open>element.attrib[key] = value\<close>\<close>

fun set_attrib :: "element \<Rightarrow> string \<Rightarrow> string \<Rightarrow> element" where
  "set_attrib (Element tg at tx ta cs) key v = Element tg (AList.update key v at) tx ta cs"

text \<open>The truth value of an optional string: \<open>None\<close> and the empty string are false.\<close>

definition truthy :: "string option \<Rightarrow> bool" where
  "truthy s = (s \<noteq> None \<and> s \<noteq> Some [])"

text \<open>
  \<^verbatim>\<open>str.strip()\<close> removes leading and trailing white space; these are the
  characters below code point 256 for which \<^verbatim>\<open>str.isspace\<close> holds.
\<close>

definition is_space :: "char \<Rightarrow> bool" where
  "is_space c = (of_char c \<in> set [9, 10, 11, 12, 13, 28, 29, 30, 31, 32, 133, 160 :: nat])"

definition strip :: "string \<Rightarrow> string" where
  "strip s = rev (dropWhile is_space (rev (dropWhile is_space s)))"

section \<open>CustomMDExtension.py: the inline patterns\<close>


definition IMAGE_EXTENSIONS :: "string list" where
  "IMAGE_EXTENSIONS = [''jpg'', ''jpeg'', ''png'', ''gif'', ''bmp'']"

definition VIDEO_EXTENSIONS :: "string list" where
  "VIDEO_EXTENSIONS = [''mp4'']"

definition VIDEO_TYPES :: "string \<rightharpoonup> string" where
  "VIDEO_TYPES = [''mp4'' \<mapsto> ''video/mp4'']"

text \<open>\<^verbatim>\<open>url.split('.')[-1]\<close>: what follows the last dot, the whole string when there is no dot.\<close>

definition last_dot_segment :: "string \<Rightarrow> string" where
  "last_dot_segment url = rev (takeWhile (\<lambda>c. c \<noteq> CHR ''.'') (rev url))"

definition ObsidianImagePattern_handleMatch :: "string \<Rightarrow> string option \<Rightarrow> error + element" where
  "ObsidianImagePattern_handleMatch url_group name =
     (let url = strip url_group;
          extension = last_dot_segment url
      in if extension = [] then Inl (ValueError (url @ '': has no extension.''))
         else if extension \<in> set IMAGE_EXTENSIONS
         then Inr (Element ''img'' [(''src'', url)] None None [])
         else if extension \<in> set VIDEO_EXTENSIONS
         then (case VIDEO_TYPES extension of
                 None \<Rightarrow> Inl (KeyError extension)
               | Some ty \<Rightarrow>
                   Inr (Element ''video'' [(''controls'', [])] None None
                          [Element ''source'' [(''src'', url), (''type'', ty)] None None []]))
         else Inl (ValueError (extension @ '': unknown file type'')))"

section \<open>CustomMDExtension.py: ObsidianLinkProcessor.run\<close>

text \<open>
  \<^verbatim>\<open>warnings.warn(href, UnknownLocalLinkWarning)\<close>. With \<^verbatim>\<open>config.STRICT\<close> the
  main program sets the filter of the warning to \<^verbatim>\<open>"error"\<close> and the call raises
  the warning; otherwise the filter is \<^verbatim>\<open>"default"\<close>, the warning is reported
  and the call returns (a warning repeated for the same target from the same line is
  shown once by that filter). The model keeps the target of every call in a log.
\<close>

definition warn :: "bool \<Rightarrow> string \<Rightarrow> string list \<Rightarrow> error + string list" where
  "warn strict target log =
     (if strict then Inl (UnknownLocalLinkWarning target) else Inr (log @ [target]))"

text \<open>\<^verbatim>\<open>parent.remove(element)\<close> for the element at position \<open>idx\<close>.\<close>

definition remove_at :: "nat \<Rightarrow> 'a list \<Rightarrow> 'a list" where
  "remove_at idx xs = take idx xs @ drop (Suc idx) xs"

text \<open>
  The loop over the sources of a video element (lines 156 to 166). \<open>present\<close> tells
  whether the video is still a child of its parent: the first unresolved source removes
  it, and a second one makes \<^verbatim>\<open>parent.remove\<close> raise \<open>ValueError\<close>.
\<close>

fun video_sources ::
  "bool \<Rightarrow> links \<Rightarrow> element list \<Rightarrow> bool \<Rightarrow> string list
    \<Rightarrow> error + element list \<times> bool \<times> string list" where
  "video_sources strict links [] present log = Inr ([], present, log)"
| "video_sources strict links (source # sources) present log =
     (case map_of (attrib source) ''src'' of
        None \<Rightarrow> Inl (KeyError ''src'')
      | Some src \<Rightarrow>
          if \<not> startswith src ''http'' then
            (case links src of
               Some p \<Rightarrow>
                 (case video_sources strict links sources present log of
                    Inl e \<Rightarrow> Inl e
                  | Inr (sources1, present1, log1) \<Rightarrow>
                      Inr (set_attrib source ''src'' (str_path p) # sources1, present1, log1))
             | None \<Rightarrow>
                 (case warn strict src log of
                    Inl e \<Rightarrow> Inl e
                  | Inr log0 \<Rightarrow>
                      if \<not> present then Inl (ValueError ''list.remove(x): x not in list'')
                      else
                        (case video_sources strict links sources False log0 of
                           Inl e \<Rightarrow> Inl e
                         | Inr (sources1, present1, log1) \<Rightarrow>
                             Inr (source # sources1, present1, log1))))
          else
            (case video_sources strict links sources present log of
               Inl e \<Rightarrow> Inl e
             | Inr (sources1, present1, log1) \<Rightarrow> Inr (source # sources1, present1, log1)))"

text \<open>
  \<^verbatim>\<open>if not previous.tail: previous.tail = ''\<close> followed by
  \<^verbatim>\<open>previous.tail += text\<close>.
\<close>

fun append_tail :: "element \<Rightarrow> string \<Rightarrow> element" where
  "append_tail (Element tg at tx ta cs) s =
     Element tg at tx (Some ((if truthy ta then the ta else []) @ s)) cs"

text \<open>
  The body of the while loop (lines 109 to 167) for the child at position \<open>idx\<close> of
  \<open>parent\<close>. The state is the text of the parent, its children, the index and the
  log of warnings. Where the source decrements the index after a removal and increments
  it at the end of the body, the model leaves the index as it is.
\<close>

definition process_child ::
  "bool \<Rightarrow> links \<Rightarrow> string option \<times> element list \<times> nat \<times> string list
    \<Rightarrow> error + string option \<times> element list \<times> nat \<times> string list" where
  "process_child strict links st =
     (case st of (parent_text, kids, idx, log) \<Rightarrow>
      let element = kids ! idx in
      if tag element = ''a'' then
        (case map_of (attrib element) ''href'' of
           None \<Rightarrow> Inl (KeyError ''href'')
         | Some href \<Rightarrow>
             if \<not> startswith href ''http'' then
               (case links href of
                  Some p \<Rightarrow>
                    Inr (parent_text, kids[idx := set_attrib element ''href'' (str_path p)],
                         Suc idx, log)
                | None \<Rightarrow>
                    (case warn strict href log of
                       Inl e \<Rightarrow> Inl e
                     | Inr log1 \<Rightarrow>
                         (case el_text element of
                            None \<Rightarrow> Inl TypeError
                          | Some t \<Rightarrow>
                              (let txt = (if truthy (el_tail element)
                                          then t @ the (el_tail element) else t)
                               in if idx = 0
                                  then Inr (Some ((if truthy parent_text then the parent_text
                                                   else []) @ txt),
                                            remove_at idx kids, idx, log1)
                                  else Inr (parent_text,
                                            remove_at idx
                                              (kids[idx - 1 := append_tail (kids ! (idx - 1)) txt]),
                                            idx, log1)))))
             else Inr (parent_text, kids[idx := set_attrib element ''class'' ''outgoing''],
                       Suc idx, log))
      else if tag element = ''img'' then
        (case map_of (attrib element) ''src'' of
           None \<Rightarrow> Inl (KeyError ''src'')
         | Some src \<Rightarrow>
             if \<not> startswith src ''http'' then
               (case links src of
                  Some p \<Rightarrow>
                    Inr (parent_text, kids[idx := set_attrib element ''src'' (str_path p)],
                         Suc idx, log)
                | None \<Rightarrow>
                    (case warn strict src log of
                       Inl e \<Rightarrow> Inl e
                     | Inr log1 \<Rightarrow> Inr (parent_text, remove_at idx kids, idx, log1)))
             else Inr (parent_text, kids, Suc idx, log))
      else if tag element = ''video'' then
        (case video_sources strict links (subelements element) True log of
           Inl e \<Rightarrow> Inl e
         | Inr (sources1, present, log1) \<Rightarrow>
             if present
             then Inr (parent_text,
                       kids[idx := Element (tag element) (attrib element) (el_text element)
                                        (el_tail element) sources1],
                       Suc idx, log1)
             else Inr (parent_text, remove_at idx kids, idx, log1))
      else Inr (parent_text, kids, Suc idx, log))"

text \<open>
  The loop ends: each pass of the body either moves the index forward or removes a child.
\<close>

lemma length_remove_at: "idx < length xs \<Longrightarrow> length (remove_at idx xs) = length xs - 1"
  by (simp add: remove_at_def)

lemma process_child_measure:
  assumes "idx < length kids"
    and "process_child strict links (parent_text, kids, idx, log) = Inr (parent_text1, kids1, idx1, log1)"
  shows "length kids1 - idx1 < length kids - idx"
  using assms
  by (auto simp: process_child_def Let_def length_remove_at
      split: if_splits option.splits sum.splits prod.splits element.splits)

text \<open>The while loop over the children of one parent.\<close>

function children_loop ::
  "bool \<Rightarrow> links \<Rightarrow> string option \<times> element list \<times> nat \<times> string list
    \<Rightarrow> error + string option \<times> element list \<times> string list" where
  "children_loop strict links (parent_text, kids, idx, log) =
     (if idx < length kids
      then (case process_child strict links (parent_text, kids, idx, log) of
              Inl e \<Rightarrow> Inl e
            | Inr st \<Rightarrow> children_loop strict links st)
      else Inr (parent_text, kids, log))"
  by pat_completeness auto
termination
  by (relation "measure (\<lambda>(strict, links, parent_text, kids, idx, log). length kids - idx)")
     (auto dest: process_child_measure)

declare children_loop.simps [simp del]

text \<open>
  The body of the loop, branch by branch, and its effect on the size of the children:
  a child is removed, or replaced by an element of the same size. This is what the
  traversal of the tree needs to end.
\<close>

lemma video_sources_sizes:
  "video_sources strict links sources present log = Inr (sources1, present1, log1) \<Longrightarrow>
   map size sources1 = map size sources"
proof (induction sources arbitrary: present log sources1 present1 log1)
  case Nil
  then show ?case by simp
next
  case (Cons source sources)
  then show ?case
    by (cases source) (auto split: option.splits if_splits sum.splits prod.splits simp: warn_def)
qed

lemma size_set_attrib: "size (set_attrib e key v) = size e"
  by (cases e) simp

lemma size_list_update_same:
  "idx < length xs \<Longrightarrow> f y = f (xs ! idx) \<Longrightarrow> size_list f (xs[idx := y]) = size_list f xs"
  by (induction xs arbitrary: idx) (auto simp: nth_Cons split: nat.splits)

lemma size_list_remove_at: "size_list f (remove_at idx xs) \<le> size_list f xs"
  unfolding remove_at_def
proof (induction xs arbitrary: idx)
  case Nil
  then show ?case by simp
next
  case (Cons x xs)
  show ?case
  proof (cases idx)
    case 0
    then show ?thesis by simp
  next
    case (Suc i)
    then show ?thesis using Cons.IH[of i] by simp
  qed
qed

lemma size_list_map_eq:
  assumes "map f xs = map f ys"
  shows "size_list f xs = size_list f ys"
proof -
  have "length xs = length ys" using assms by (rule map_eq_imp_length_eq)
  then show ?thesis by (simp add: size_list_conv_sum_list assms)
qed

lemma process_child_other:
  "tag (kids ! idx) \<noteq> ''a'' \<Longrightarrow> tag (kids ! idx) \<noteq> ''img'' \<Longrightarrow> tag (kids ! idx) \<noteq> ''video'' \<Longrightarrow>
   process_child strict links (parent_text, kids, idx, log) = Inr (parent_text, kids, Suc idx, log)"
  by (simp add: process_child_def)

lemma process_child_link:
  assumes "tag (kids ! idx) = ''a''"
  shows "process_child strict links (parent_text, kids, idx, log) =
     (case map_of (attrib (kids ! idx)) ''href'' of
        None \<Rightarrow> Inl (KeyError ''href'')
      | Some href \<Rightarrow>
          if startswith href ''http''
          then Inr (parent_text, kids[idx := set_attrib (kids ! idx) ''class'' ''outgoing''],
                    Suc idx, log)
          else
            (case links href of
               Some p \<Rightarrow>
                 Inr (parent_text, kids[idx := set_attrib (kids ! idx) ''href'' (str_path p)],
                      Suc idx, log)
             | None \<Rightarrow>
                 if strict then Inl (UnknownLocalLinkWarning href)
                 else
                   (case el_text (kids ! idx) of
                      None \<Rightarrow> Inl TypeError
                    | Some t \<Rightarrow>
                        if idx = 0
                        then Inr (Some ((if truthy parent_text then the parent_text else [])
                                        @ t @ (if truthy (el_tail (kids ! idx))
                                               then the (el_tail (kids ! idx)) else [])),
                                  remove_at idx kids, idx, log @ [href])
                        else Inr (parent_text,
                                  remove_at idx
                                    (kids[idx - 1 := append_tail (kids ! (idx - 1))
                                       (t @ (if truthy (el_tail (kids ! idx))
                                             then the (el_tail (kids ! idx)) else []))]),
                                  idx, log @ [href]))))"
proof (cases "map_of (attrib (kids ! idx)) ''href''")
  case None
  then show ?thesis using assms by (simp add: process_child_def)
next
  case (Some href)
  show ?thesis
  proof (cases "startswith href ''http''")
    case True
    then show ?thesis using assms Some by (simp add: process_child_def)
  next
    case local: False
    show ?thesis
    proof (cases "links href")
      case (Some p)
      then show ?thesis using assms \<open>map_of (attrib (kids ! idx)) ''href'' = Some href\<close> local
        by (simp add: process_child_def)
    next
      case None
      note h = assms \<open>map_of (attrib (kids ! idx)) ''href'' = Some href\<close> local None
      show ?thesis
      proof (cases strict)
        case True
        then show ?thesis using h by (simp add: process_child_def warn_def)
      next
        case False
        show ?thesis
        proof (cases "el_text (kids ! idx)")
          case None
          then show ?thesis using h False by (simp add: process_child_def warn_def)
        next
          case (Some t)
          then show ?thesis using h False by (simp add: process_child_def warn_def Let_def)
        qed
      qed
    qed
  qed
qed

lemma process_child_image:
  assumes "tag (kids ! idx) = ''img''"
  shows "process_child strict links (parent_text, kids, idx, log) =
     (case map_of (attrib (kids ! idx)) ''src'' of
        None \<Rightarrow> Inl (KeyError ''src'')
      | Some src \<Rightarrow>
          if startswith src ''http'' then Inr (parent_text, kids, Suc idx, log)
          else
            (case links src of
               Some p \<Rightarrow>
                 Inr (parent_text, kids[idx := set_attrib (kids ! idx) ''src'' (str_path p)],
                      Suc idx, log)
             | None \<Rightarrow>
                 if strict then Inl (UnknownLocalLinkWarning src)
                 else Inr (parent_text, remove_at idx kids, idx, log @ [src])))"
proof (cases "map_of (attrib (kids ! idx)) ''src''")
  case None
  then show ?thesis using assms by (simp add: process_child_def)
next
  case (Some src)
  show ?thesis
  proof (cases "startswith src ''http''")
    case True
    then show ?thesis using assms Some by (simp add: process_child_def)
  next
    case local: False
    show ?thesis
    proof (cases "links src")
      case (Some p)
      then show ?thesis using assms \<open>map_of (attrib (kids ! idx)) ''src'' = Some src\<close> local
        by (simp add: process_child_def)
    next
      case None
      then show ?thesis using assms \<open>map_of (attrib (kids ! idx)) ''src'' = Some src\<close> local
        by (simp add: process_child_def warn_def)
    qed
  qed
qed

lemma process_child_video:
  assumes "tag (kids ! idx) = ''video''"
  shows "process_child strict links (parent_text, kids, idx, log) =
     (case video_sources strict links (subelements (kids ! idx)) True log of
        Inl e \<Rightarrow> Inl e
      | Inr (sources1, present, log1) \<Rightarrow>
          if present
          then Inr (parent_text,
                    kids[idx := Element (tag (kids ! idx)) (attrib (kids ! idx))
                                  (el_text (kids ! idx)) (el_tail (kids ! idx)) sources1],
                    Suc idx, log1)
          else Inr (parent_text, remove_at idx kids, idx, log1))"
  using assms
  by (simp add: process_child_def Let_def)

lemma size_append_tail: "size (append_tail e s) = size e"
  by (cases e) simp

lemma process_child_shape:
  assumes "idx < length kids"
    and "process_child strict links (parent_text, kids, idx, log) = Inr (parent_text1, kids1, idx1, log1)"
  shows "kids1 = kids \<or> (\<exists>y. size y = size (kids ! idx) \<and> kids1 = kids[idx := y])
         \<or> kids1 = remove_at idx kids
         \<or> (\<exists>y. size y = size (kids ! (idx - 1)) \<and> kids1 = remove_at idx (kids[idx - 1 := y]))"
proof -
  consider (a) "tag (kids ! idx) = ''a''" | (img) "tag (kids ! idx) = ''img''"
    | (video) "tag (kids ! idx) = ''video''"
    | (other) "tag (kids ! idx) \<noteq> ''a''" "tag (kids ! idx) \<noteq> ''img''"
        "tag (kids ! idx) \<noteq> ''video''"
    by blast
  then show ?thesis
  proof cases
    case a
    have "(\<exists>y. size y = size (kids ! idx) \<and> kids1 = kids[idx := y])
         \<or> kids1 = remove_at idx kids
         \<or> (\<exists>y. size y = size (kids ! (idx - 1)) \<and> kids1 = remove_at idx (kids[idx - 1 := y]))"
      using assms(2) unfolding process_child_link[OF a]
      by (auto split: option.splits if_splits
          intro: size_set_attrib size_append_tail)
    then show ?thesis by blast
  next
    case img
    have "kids1 = kids \<or> (\<exists>y. size y = size (kids ! idx) \<and> kids1 = kids[idx := y])
         \<or> kids1 = remove_at idx kids"
      using assms(2) unfolding process_child_image[OF img]
      by (auto split: option.splits if_splits intro: size_set_attrib)
    then show ?thesis by blast
  next
    case video
    have v: "size (Element (tag (kids ! idx)) (attrib (kids ! idx)) (el_text (kids ! idx))
                     (el_tail (kids ! idx)) sources1) = size (kids ! idx)"
      if "video_sources strict links (subelements (kids ! idx)) True log = Inr (sources1, present, log1')"
      for sources1 present log1'
      using size_list_map_eq[OF video_sources_sizes[OF that]]
      by (cases "kids ! idx") simp
    have "(\<exists>y. size y = size (kids ! idx) \<and> kids1 = kids[idx := y])
         \<or> kids1 = remove_at idx kids"
      using assms(2) unfolding process_child_video[OF video]
      by (auto split: sum.splits prod.splits if_splits intro: v)
    then show ?thesis by blast
  next
    case other
    show ?thesis
      using assms(2) process_child_other[OF other] by simp
  qed
qed

lemma process_child_size:
  assumes "idx < length kids"
    and "process_child strict links (parent_text, kids, idx, log) = Inr (parent_text1, kids1, idx1, log1)"
  shows "size_list size kids1 \<le> size_list size kids"
proof -
  have u: "size_list size (kids[i := y]) = size_list size kids"
    if "size y = size (kids ! i)" "i < length kids" for y i
    using size_list_update_same[OF that(2), of size y] that(1) by simp
  have i1: "idx - 1 < length kids" using assms(1) by simp
  from process_child_shape[OF assms]
  consider "kids1 = kids" | y where "size y = size (kids ! idx)" "kids1 = kids[idx := y]"
    | "kids1 = remove_at idx kids"
    | y where "size y = size (kids ! (idx - 1))" "kids1 = remove_at idx (kids[idx - 1 := y])"
    by blast
  then show ?thesis
  proof cases
    case 1
    then show ?thesis by simp
  next
    case 2
    then show ?thesis using u[OF 2(1) assms(1)] by simp
  next
    case 3
    then show ?thesis using size_list_remove_at[of size idx kids] by simp
  next
    case 4
    then show ?thesis
      using u[OF 4(1) i1] size_list_remove_at[of size idx "kids[idx - 1 := y]"] by simp
  qed
qed

lemma children_loop_size:
  "children_loop strict links st = Inr (parent_text1, kids1, log1) \<Longrightarrow>
   size_list size kids1 \<le> size_list size (fst (snd st))"
proof (induction strict links st rule: children_loop.induct)
  case (1 strict links parent_text kids idx log)
  show ?case
  proof (cases "idx < length kids")
    case False
    then show ?thesis using "1.prems" by (simp add: children_loop.simps)
  next
    case True
    then obtain st where s: "process_child strict links (parent_text, kids, idx, log) = Inr st"
      and l: "children_loop strict links st = Inr (parent_text1, kids1, log1)"
      using "1.prems" by (auto simp: children_loop.simps split: sum.splits)
    have "size_list size kids1 \<le> size_list size (fst (snd st))"
      using "1.IH"[OF True s l] .
    moreover have "size_list size (fst (snd st)) \<le> size_list size kids"
      using process_child_size[OF True, of strict links parent_text log "fst st" "fst (snd st)"
          "fst (snd (snd st))" "snd (snd (snd st))"] s by simp
    ultimately show ?thesis by simp
  qed
qed

text \<open>
  \<open>run\<close>: \<^verbatim>\<open>for parent in root.iter()\<close> visits the elements in document order,
  each before its children, and the loop over the children of \<open>parent\<close> has finished
  when the iteration descends into them; so the children visited are the ones the loop
  has left. The result is the tree as the processor leaves it and the log of warnings.
\<close>

function run_parent :: "bool \<Rightarrow> links \<Rightarrow> element \<Rightarrow> string list \<Rightarrow> error + element \<times> string list"
  and run_parents ::
    "bool \<Rightarrow> links \<Rightarrow> element list \<Rightarrow> string list \<Rightarrow> error + element list \<times> string list"
  where
  "run_parent strict links (Element tg at tx ta cs) log =
     (case children_loop strict links (tx, cs, 0, log) of
        Inl e \<Rightarrow> Inl e
      | Inr (tx1, cs1, log1) \<Rightarrow>
          (case run_parents strict links cs1 log1 of
             Inl e \<Rightarrow> Inl e
           | Inr (cs2, log2) \<Rightarrow> Inr (Element tg at tx1 ta cs2, log2)))"
| "run_parents strict links [] log = Inr ([], log)"
| "run_parents strict links (c # cs) log =
     (case run_parent strict links c log of
        Inl e \<Rightarrow> Inl e
      | Inr (c1, log1) \<Rightarrow>
          (case run_parents strict links cs log1 of
             Inl e \<Rightarrow> Inl e
           | Inr (cs1, log2) \<Rightarrow> Inr (c1 # cs1, log2)))"
  by pat_completeness auto
termination
  by (relation "measure (\<lambda>x. case x of
                   Inl (strict, links, parent, log) \<Rightarrow> 2 * size parent
                 | Inr (strict, links, parents, log) \<Rightarrow> 2 * size_list size parents + 1)")
     (auto dest!: children_loop_size)

definition run :: "bool \<Rightarrow> links \<Rightarrow> element \<Rightarrow> error + element \<times> string list" where
  "run strict links root = run_parent strict links root []"

section \<open>generator.py: make_navbar\<close>




section \<open>The lenient resolver as the specification describes it\<close>

text \<open>
  What the specification says about one child in lenient mode: an element whose target
  is found is kept with its reference rewritten, an outgoing link is kept and tagged, an
  unresolved link is replaced by its text (its own text followed by its tail), an
  unresolved image or video is dropped; any other element is kept as it is.
\<close>

datatype outcome = Keep element | Splice string string | Drop string

definition rewrite_source :: "links \<Rightarrow> element \<Rightarrow> element" where
  "rewrite_source links source =
     (case map_of (attrib source) ''src'' of
        None \<Rightarrow> source
      | Some src \<Rightarrow>
          if startswith src ''http'' then source
          else (case links src of
                  None \<Rightarrow> source
                | Some p \<Rightarrow> set_attrib source ''src'' (str_path p)))"

definition unresolved_sources :: "links \<Rightarrow> element list \<Rightarrow> string list" where
  "unresolved_sources links sources =
     filter (\<lambda>src. \<not> startswith src ''http'' \<and> links src = None)
       (map (\<lambda>source. the (map_of (attrib source) ''src'')) sources)"

definition lenient_outcome :: "links \<Rightarrow> element \<Rightarrow> outcome" where
  "lenient_outcome links e =
     (if tag e = ''a'' then
        (let href = the (map_of (attrib e) ''href'')
         in if startswith href ''http'' then Keep (set_attrib e ''class'' ''outgoing'')
            else (case links href of
                    Some p \<Rightarrow> Keep (set_attrib e ''href'' (str_path p))
                  | None \<Rightarrow>
                      Splice href
                        (the (el_text e) @ (if truthy (el_tail e) then the (el_tail e) else []))))
      else if tag e = ''img'' then
        (let src = the (map_of (attrib e) ''src'')
         in if startswith src ''http'' then Keep e
            else (case links src of
                    Some p \<Rightarrow> Keep (set_attrib e ''src'' (str_path p))
                  | None \<Rightarrow> Drop src))
      else if tag e = ''video'' then
        (case unresolved_sources links (subelements e) of
           [] \<Rightarrow> Keep (Element (tag e) (attrib e) (el_text e) (el_tail e)
                        (map (rewrite_source links) (subelements e)))
         | src # others \<Rightarrow> Drop src)
      else Keep e)"

text \<open>
  The children of one parent, left to right: \<open>kept\<close> are the children that stay, in
  order. The text of an unresolved link goes to the tail of the last child kept before
  it, or to the text of the parent when no child precedes it. A dropped element goes
  with its tail. The log gets the target of every element that is spliced or dropped.
\<close>

fun splice_children ::
  "links \<Rightarrow> string option \<Rightarrow> element list \<Rightarrow> string list \<Rightarrow> element list
    \<Rightarrow> string option \<times> element list \<times> string list" where
  "splice_children links parent_text kept log [] = (parent_text, kept, log)"
| "splice_children links parent_text kept log (e # es) =
     (case lenient_outcome links e of
        Keep e1 \<Rightarrow> splice_children links parent_text (kept @ [e1]) log es
      | Drop target \<Rightarrow> splice_children links parent_text kept (log @ [target]) es
      | Splice target txt \<Rightarrow>
          if kept = []
          then splice_children links
                 (Some ((if truthy parent_text then the parent_text else []) @ txt)) []
                 (log @ [target]) es
          else splice_children links parent_text
                 (butlast kept @ [append_tail (last kept) txt]) (log @ [target]) es)"

text \<open>
  The children on which the loop cannot fail: a link has an \<open>href\<close>, and a text of
  its own when it is unresolved; an image has a \<open>src\<close>; every source of a video has a
  \<open>src\<close>, and at most one of them is unresolved. The elements that the two inline
  patterns build are of this kind.
\<close>

definition resolvable :: "links \<Rightarrow> element \<Rightarrow> bool" where
  "resolvable links e =
     (if tag e = ''a'' then
        (case map_of (attrib e) ''href'' of
           None \<Rightarrow> False
         | Some href \<Rightarrow> startswith href ''http'' \<or> links href \<noteq> None \<or> el_text e \<noteq> None)
      else if tag e = ''img'' then map_of (attrib e) ''src'' \<noteq> None
      else if tag e = ''video'' then
        list_all (\<lambda>source. map_of (attrib source) ''src'' \<noteq> None) (subelements e)
        \<and> length (unresolved_sources links (subelements e)) \<le> 1
      else True)"

text \<open>
  Strict mode, as the specification describes it: the children are kept with their
  references rewritten up to the first unresolved target, which fails the run.
\<close>

fun strict_children :: "links \<Rightarrow> element list \<Rightarrow> element list \<Rightarrow> error + element list" where
  "strict_children links kept [] = Inr kept"
| "strict_children links kept (e # es) =
     (case lenient_outcome links e of
        Keep e1 \<Rightarrow> strict_children links (kept @ [e1]) es
      | Drop target \<Rightarrow> Inl (UnknownLocalLinkWarning target)
      | Splice target spliced \<Rightarrow> Inl (UnknownLocalLinkWarning target))"

section \<open>Verification\<close>

subsection \<open>urlize\<close>






subsection \<open>reorder_children\<close>

lemma set_iteration_sorted: "set_iteration sorted_list_of_set"
  by (simp add: set_iteration_def)

lemma distinct_singleton_set: "distinct xs \<Longrightarrow> set xs = {b} \<Longrightarrow> xs = [b]"
  by (cases xs) (auto simp: subset_singleton_iff)

text \<open>
  Claim C1, as stated, fails twice. The result has no duplicates only when the declared
  list has none: with the declared children \<open>[a, a]\<close> and the actual children
  \<open>[a]\<close> the loop over the declared list appends \<open>a\<close> twice (the remainder is
  empty, so the iteration order of the set plays no part). And the remaining children
  come in the order in which the set is iterated, not in scan order: an iteration that
  happens to yield \<open>a\<close> before \<open>b\<close> (here the sorted one) turns the actual
  children \<open>[c, b, a]\<close> with the declared \<open>[c]\<close> into \<open>[c, a, b]\<close>.
\<close>

theorem reorder_children_duplicate_counterexample:
  "\<not> distinct (reorder_children sorted_list_of_set [''a''] [''children'' \<mapsto> [''a'', ''a'']])
   \<and> set_iteration sorted_list_of_set
   \<and> reorder_children sorted_list_of_set [''c'', ''b'', ''a''] [''children'' \<mapsto> [''c'']]
       = [''c'', ''a'', ''b'']"
proof (intro conjI)
  show "\<not> distinct (reorder_children sorted_list_of_set [''a''] [''children'' \<mapsto> [''a'', ''a'']])"
    by (simp add: reorder_children_def)
  show "set_iteration sorted_list_of_set"
    by (rule set_iteration_sorted)
  show "reorder_children sorted_list_of_set [''c'', ''b'', ''a''] [''children'' \<mapsto> [''c'']]
          = [''c'', ''a'', ''b'']"
    by (simp add: reorder_children_def insert_Diff_if less_eq_char_def less_char_def)
qed

text \<open>
  Claim C1, amended. For a page whose metadata declares a children list,
  \<open>reorder_children\<close> returns the declared entries that occur among the actual
  children, in declared order (an entry declared twice appears twice), followed by the
  remaining actual children, each once, in the iteration order of a Python set (which
  need not be the scan order). Every actual child occurs in the result and nothing else
  does; when the declared list has no repeated entry the result has no duplicates; and
  for the declared children \<open>[c, a]\<close> and the actual children \<open>[a, b, c]\<close> the
  result is \<open>[c, a, b]\<close> whatever the iteration order.
\<close>

theorem reorder_children_declared_first:
  assumes "set_iteration list_of" and "meta ''children'' = Some declared"
  shows "(\<exists>rest. reorder_children list_of children meta
                  = filter (\<lambda>c. c \<in> set children) declared @ rest
               \<and> distinct rest \<and> set rest = set children - set declared)
         \<and> set (reorder_children list_of children meta) = set children
         \<and> (distinct declared \<longrightarrow> distinct (reorder_children list_of children meta))
         \<and> reorder_children list_of [''a'', ''b'', ''c''] [''children'' \<mapsto> [''c'', ''a'']]
             = [''c'', ''a'', ''b'']"
proof -
  let ?rest = "list_of (set children - set declared)"
  have r: "set ?rest = set children - set declared" "distinct ?rest"
    using assms(1) by (simp_all add: set_iteration_def)
  have eq: "reorder_children list_of children meta
              = filter (\<lambda>c. c \<in> set children) declared @ ?rest"
    using assms(2) by (simp add: reorder_children_def)
  have s: "set (reorder_children list_of children meta) = set children"
    unfolding eq using r(1) by auto
  have d: "distinct declared \<longrightarrow> distinct (reorder_children list_of children meta)"
    unfolding eq using r by auto
  have "set [''a'', ''b'', ''c''] - set [''c'', ''a''] = {''b''}"
    by auto
  moreover have "list_of {''b''} = [''b'']"
    using assms(1) by (intro distinct_singleton_set) (simp_all add: set_iteration_def)
  ultimately have e:
    "reorder_children list_of [''a'', ''b'', ''c''] [''children'' \<mapsto> [''c'', ''a'']]
       = [''c'', ''a'', ''b'']"
    by (simp add: reorder_children_def)
  show ?thesis using eq r s d e by blast
qed

theorem reorder_children_declared_first_witness:
  "set_iteration sorted_list_of_set
   \<and> [''children'' \<mapsto> [''c'', ''a'']] ''children'' = Some [''c'', ''a'']
   \<and> reorder_children sorted_list_of_set [''a'', ''b'', ''c''] [''children'' \<mapsto> [''c'', ''a'']]
        = [''c'', ''a'', ''b'']
   \<and> set (reorder_children sorted_list_of_set [''a'', ''b'', ''c''] [''children'' \<mapsto> [''c'', ''a'']])
        = set [''a'', ''b'', ''c'']"
  using reorder_children_declared_first
          [of sorted_list_of_set "[''children'' \<mapsto> [''c'', ''a'']]" "[''c'', ''a'']"
              "[''a'', ''b'', ''c'']"]
  by (auto simp: set_iteration_sorted)

subsection \<open>parse_input_directory and make_links\<close>

lemma hidden_parent: "\<not> hidden it \<Longrightarrow> parts d = path_parent (parts it) \<Longrightarrow> \<not> hidden d"
  by (auto simp: hidden_def path_parent_def list_ex_iff dest: in_set_butlastD)

lemma first_dup_None: "first_dup seen names = None \<longleftrightarrow> distinct names \<and> set names \<inter> set seen = {}"
  by (induction names arbitrary: seen) auto

lemma first_dup_cong: "set seen = set seen' \<Longrightarrow> first_dup seen names = first_dup seen' names"
proof (induction names arbitrary: seen seen')
  case Nil
  then show ?case by simp
next
  case (Cons n names)
  have "first_dup (n # seen) names = first_dup (n # seen') names"
    by (rule Cons.IH) (simp add: Cons.prems)
  then show ?case using Cons.prems by simp
qed

lemma walk_item_hidden: "hidden it \<Longrightarrow> walk_item cfg ex st it = Inr st"
  by (simp add: walk_item_def split: prod.splits)

lemma walk_item_media:
  "is_media_entry it \<Longrightarrow>
   walk_item cfg ex (pages, nav, media) it = Inr (pages, nav, media @ media_entries cfg [it])"
  by (simp add: walk_item_def is_media_entry_def media_entries_def)

lemma walk_item_description:
  "\<not> hidden it \<Longrightarrow> \<not> is_media_entry it \<Longrightarrow> \<not> is_entry it \<Longrightarrow>
   walk_item cfg ex st it = Inr st"
  by (auto simp: walk_item_def is_media_entry_def is_entry_def is_dir_entry_def is_page_entry_def
      split: prod.splits)

lemma walk_item_entry:
  assumes "is_entry it"
  shows "\<exists>v. walk_item cfg ex (pages, nav, media) it =
       (case add_to_navigation nav (path_stem (path_parent (parts it))) (path_stem (parts it)) of
          Inl e \<Rightarrow> Inl e
        | Inr nav1 \<Rightarrow> Inr (pages(path_stem (parts it) \<mapsto> v), nav1, media))"
proof (cases "is_file it")
  case True
  with assms have "walk_item cfg ex (pages, nav, media) it =
       (case add_to_navigation nav (path_stem (path_parent (parts it))) (path_stem (parts it)) of
          Inl e \<Rightarrow> Inl e
        | Inr nav1 \<Rightarrow> Inr (pages(path_stem (parts it) \<mapsto>
              (Some (parts it), [urlize (path_stem (parts it)) @ ''.html''])), nav1, media))"
    by (simp add: walk_item_def is_entry_def is_dir_entry_def is_page_entry_def Let_def)
  then show ?thesis by blast
next
  case False
  with assms have "walk_item cfg ex (pages, nav, media) it =
       (case add_to_navigation nav (path_stem (path_parent (parts it))) (path_stem (parts it)) of
          Inl e \<Rightarrow> Inl e
        | Inr nav1 \<Rightarrow> Inr (pages(path_stem (parts it) \<mapsto>
              (if ex (parts it @ [path_stem (parts it) @ ''.md''])
               then Some (parts it @ [path_stem (parts it) @ ''.md'']) else None,
               if length (parts it) = 1 then [''index.html'']
               else [urlize (path_stem (parts it)) @ ''.html''])), nav1, media))"
    by (simp add: walk_item_def is_entry_def is_dir_entry_def is_page_entry_def Let_def)
  then show ?thesis by blast
qed

lemma add_to_navigation_cases:
  "nav p = Some (gp, kids) \<Longrightarrow>
   add_to_navigation nav p k =
     (if k \<in> dom nav then Inl (SameNameError k)
      else Inr (nav(p \<mapsto> (gp, kids @ [k]), k \<mapsto> (Some p, []))))"
  by (auto simp: add_to_navigation_def Let_def)

lemma nav_parent_upd:
  "nav p = Some (gp, kids) \<Longrightarrow> k \<noteq> p \<Longrightarrow>
   nav_parent (nav(p \<mapsto> (gp, kids @ [k]), k \<mapsto> (Some p, []))) x =
     (if x = k then Some p else nav_parent nav x)"
  by (auto simp: nav_parent_def)

lemma nav_children_upd:
  "nav p = Some (gp, kids) \<Longrightarrow> k \<noteq> p \<Longrightarrow>
   nav_children (nav(p \<mapsto> (gp, kids @ [k]), k \<mapsto> (Some p, []))) x =
     (if x = k then [] else if x = p then kids @ [k] else nav_children nav x)"
  by (auto simp: nav_children_def)

lemma nav_parent_dom: "nav_parent nav k = Some p \<Longrightarrow> k \<in> dom nav"
  by (auto simp: nav_parent_def split: option.splits)

lemma climb_ext:
  assumes "\<And>x. x \<in> D \<Longrightarrow> nav_parent nav' x = nav_parent nav x"
    and "\<And>x q. x \<in> D \<Longrightarrow> nav_parent nav x = Some q \<Longrightarrow> q \<in> D"
  shows "x \<in> D \<Longrightarrow> climb nav' n x = climb nav n x"
proof (induction n arbitrary: x)
  case 0
  then show ?case by simp
next
  case (Suc n)
  show ?case
  proof (cases "nav_parent nav x")
    case None
    then show ?thesis using assms(1)[OF Suc.prems] by simp
  next
    case (Some q)
    then have "q \<in> D" using assms(2) Suc.prems by blast
    then show ?thesis using Some assms(1)[OF Suc.prems] Suc.IH by simp
  qed
qed

lemma nav_tree_root: "nav_tree nav \<Longrightarrow> [] \<in> dom nav \<and> nav_parent nav [] = None"
  by (simp add: nav_tree_def)

lemma nav_tree_parent:
  "nav_tree nav \<Longrightarrow> k \<in> dom nav \<Longrightarrow> k \<noteq> [] \<Longrightarrow>
   \<exists>p. nav_parent nav k = Some p \<and> p \<in> dom nav \<and> count_list (nav_children nav p) k = 1"
  unfolding nav_tree_def by (elim conjE) (drule (1) bspec, simp)

lemma nav_tree_child:
  "nav_tree nav \<Longrightarrow> c \<in> set (nav_children nav p) \<Longrightarrow> nav_parent nav c = Some p"
  unfolding nav_tree_def by (elim conjE) (drule_tac x = p in spec, drule (1) bspec, simp)

lemma nav_tree_climb: "nav_tree nav \<Longrightarrow> k \<in> dom nav \<Longrightarrow> \<exists>n. climb nav n k = Some []"
  unfolding nav_tree_def by (elim conjE) (drule (1) bspec, simp)

lemma nav_treeI:
  assumes "[] \<in> dom nav" and "nav_parent nav [] = None"
    and "\<And>k. k \<in> dom nav \<Longrightarrow> k \<noteq> [] \<Longrightarrow>
           \<exists>p. nav_parent nav k = Some p \<and> p \<in> dom nav \<and> count_list (nav_children nav p) k = 1"
    and "\<And>p c. c \<in> set (nav_children nav p) \<Longrightarrow> nav_parent nav c = Some p"
    and "\<And>k. k \<in> dom nav \<Longrightarrow> \<exists>n. climb nav n k = Some []"
  shows "nav_tree nav"
  unfolding nav_tree_def using assms by (intro conjI ballI allI impI)

lemma nav_tree_upd:
  assumes t: "nav_tree nav" and p: "nav p = Some (gp, kids)" and k: "k \<notin> dom nav"
  shows "nav_tree (nav(p \<mapsto> (gp, kids @ [k]), k \<mapsto> (Some p, [])))"
proof -
  let ?nav = "nav(p \<mapsto> (gp, kids @ [k]), k \<mapsto> (Some p, []))"
  have kp: "k \<noteq> p" using p k by auto
  have k0: "k \<noteq> []" using nav_tree_root[OF t] k by auto
  have pd: "p \<in> dom nav" using p by auto
  note P = nav_parent_upd[of nav p gp kids k, OF p kp]
    and C = nav_children_upd[of nav p gp kids k, OF p kp]
  have kids: "nav_children nav p = kids" using p by (simp add: nav_children_def)
  have closed: "q \<in> dom nav" if xd: "x \<in> dom nav" and xq: "nav_parent nav x = Some q" for x q
  proof (cases "x = []")
    case True
    then show ?thesis using nav_tree_root[OF t] xq by simp
  next
    case False
    then obtain q' where "nav_parent nav x = Some q'" "q' \<in> dom nav"
      using nav_tree_parent[OF t xd] by blast
    then show ?thesis using xq by simp
  qed
  have same: "nav_parent ?nav x = nav_parent nav x" if "x \<in> dom nav" for x
  proof -
    have "x \<noteq> k" using that k by auto
    then show ?thesis by (simp add: P)
  qed
  have childdom: "c \<in> dom nav" if "c \<in> set (nav_children nav q)" for q c
    using nav_tree_child[OF t that] by (rule nav_parent_dom)
  have knk: "k \<notin> set kids" using childdom[of k p] kids k by auto
  have a1: "[] \<in> dom ?nav" using nav_tree_root[OF t] by simp
  have a2: "nav_parent ?nav [] = None" using nav_tree_root[OF t] k0 by (simp add: P)
  have a3: "\<exists>q. nav_parent ?nav x = Some q \<and> q \<in> dom ?nav
                \<and> count_list (nav_children ?nav q) x = 1"
    if xn: "x \<in> dom ?nav" and x0: "x \<noteq> []" for x
  proof (cases "x = k")
    case True
    have "count_list (kids @ [k]) k = 1" using knk by (simp add: count_list_0_iff)
    then show ?thesis using True pd kp by (simp add: P C)
  next
    case False
    with xn pd have xd: "x \<in> dom nav" by auto
    then obtain q where q: "nav_parent nav x = Some q" "q \<in> dom nav"
        "count_list (nav_children nav q) x = 1"
      using nav_tree_parent[OF t xd x0] by blast
    have qk: "q \<noteq> k" using q(2) k by auto
    have "count_list (nav_children ?nav q) x = 1"
      using q(3) qk False kids by (cases "q = p") (simp_all add: C)
    then show ?thesis using q(1,2) False by (simp add: P)
  qed
  have a4: "nav_parent ?nav c = Some q" if c: "c \<in> set (nav_children ?nav q)" for q c
  proof (cases "c = k")
    case True
    have "q \<noteq> k" using c by (auto simp: C split: if_splits)
    moreover have "q = p"
    proof (rule ccontr)
      assume "q \<noteq> p"
      with \<open>q \<noteq> k\<close> c have "c \<in> set (nav_children nav q)" by (simp add: C)
      then show False using childdom True k by blast
    qed
    ultimately show ?thesis using True by (simp add: P)
  next
    case False
    have "q \<noteq> k" using c by (auto simp: C split: if_splits)
    then have "c \<in> set (nav_children nav q)"
      using c False kids by (cases "q = p") (simp_all add: C)
    then show ?thesis using nav_tree_child[OF t] False by (simp add: P)
  qed
  have a5: "\<exists>n. climb ?nav n x = Some []" if "x \<in> dom ?nav" for x
  proof (cases "x = k")
    case True
    obtain n where "climb nav n p = Some []" using nav_tree_climb[OF t pd] by blast
    then have "climb ?nav n p = Some []"
      using climb_ext[of "dom nav" ?nav nav p n, OF same closed pd] by simp
    then have "climb ?nav (Suc n) k = Some []"
      by (simp add: P)
    then show ?thesis using True by blast
  next
    case False
    with that pd have xd: "x \<in> dom nav" by auto
    then obtain n where "climb nav n x = Some []" using nav_tree_climb[OF t] by blast
    then have "climb ?nav n x = Some []"
      using climb_ext[of "dom nav" ?nav nav x n, OF same closed xd] by simp
    then show ?thesis by blast
  qed
  show ?thesis
    by (rule nav_treeI) (fact a1, fact a2, fact a3, fact a4, fact a5)
qed

lemma path_stem_Nil: "path_stem [] = []"
  by (simp add: path_stem_def path_name_def has_suffix_def rfind_dot_def)

lemma entry_not_media: "is_entry it \<Longrightarrow> \<not> is_media_entry it"
  by (auto simp: is_entry_def is_media_entry_def is_dir_entry_def is_page_entry_def)

lemma entry_names_Cons:
  "entry_names (it # items) =
     (if is_entry it then path_stem (parts it) # entry_names items else entry_names items)"
  by (simp add: entry_names_def)

lemma media_entries_single:
  "media_entries cfg [it] @ media_entries cfg items = media_entries cfg (it # items)"
  by (simp add: media_entries_def)

lemma media_entries_skip:
  "\<not> is_media_entry it \<Longrightarrow> media_entries cfg (it # items) = media_entries cfg items"
  by (simp add: media_entries_def)

lemma walk_item_no_entry:
  assumes "\<not> is_entry it"
  shows "walk_item cfg ex (pages, nav, media) it = Inr (pages, nav, media @ media_entries cfg [it])"
proof (cases "hidden it")
  case True
  then show ?thesis by (simp add: walk_item_hidden is_media_entry_def media_entries_def)
next
  case False
  show ?thesis
  proof (cases "is_media_entry it")
    case True
    then show ?thesis by (simp add: walk_item_media)
  next
    case nm: False
    then show ?thesis using False assms by (simp add: walk_item_description media_entries_def)
  qed
qed

lemma walk_items_char:
  assumes "\<forall>d \<in> set seen. is_dir_entry d \<longrightarrow> path_stem (parts d) \<in> dom nav"
    and "[] \<in> dom nav"
    and "walk_order seen items"
    and "set ks = dom nav"
  shows "(\<forall>s. first_dup ks (entry_names items) = Some s \<longrightarrow>
              walk_items cfg ex (pages, nav, media) items = Inl (SameNameError s))
         \<and> (first_dup ks (entry_names items) = None \<longrightarrow>
             (\<exists>pages' nav'.
                walk_items cfg ex (pages, nav, media) items
                  = Inr (pages', nav', media @ media_entries cfg items)
                \<and> dom pages' = dom pages \<union> set (entry_names items)
                \<and> dom nav' = dom nav \<union> set (entry_names items)
                \<and> (nav_tree nav \<longrightarrow> nav_tree nav')))"
  using assms
proof (induction items arbitrary: seen pages nav media ks)
  case Nil
  then show ?case by (simp add: entry_names_def media_entries_def)
next
  case (Cons it items)
  have ord: "walk_order (seen @ [it]) items" using Cons.prems(3) by simp
  show ?case
  proof (cases "is_entry it")
    case False
    let ?media = "media @ media_entries cfg [it]"
    have step: "walk_item cfg ex (pages, nav, media) it = Inr (pages, nav, ?media)"
      using False by (rule walk_item_no_entry)
    have nd: "\<not> is_dir_entry it" using False by (simp add: is_entry_def)
    have seen': "\<forall>d \<in> set (seen @ [it]). is_dir_entry d \<longrightarrow> path_stem (parts d) \<in> dom nav"
      using Cons.prems(1) nd by auto
    note IH = Cons.IH[of "seen @ [it]" nav ks pages ?media, OF seen' Cons.prems(2) ord Cons.prems(4)]
    have m: "?media @ media_entries cfg items = media @ media_entries cfg (it # items)"
      by (simp add: media_entries_single)
    have w: "walk_items cfg ex (pages, nav, media) (it # items)
               = walk_items cfg ex (pages, nav, ?media) items"
      by (simp add: step)
    have e: "entry_names (it # items) = entry_names items"
      using False by (simp add: entry_names_Cons)
    show ?thesis
      using IH unfolding m w e .
  next
    case True
    let ?stem = "path_stem (parts it)"
    let ?pstem = "path_stem (path_parent (parts it))"
    have nh: "\<not> hidden it" using True by (auto simp: is_entry_def is_dir_entry_def is_page_entry_def)
    have pin: "?pstem \<in> dom nav"
    proof (cases "length (parts it) = 1")
      case True
      then have "path_parent (parts it) = []"
        by (cases "parts it") (simp_all add: path_parent_def)
      then show ?thesis using Cons.prems(2) by (simp add: path_stem_Nil)
    next
      case False
      then obtain d where d: "d \<in> set seen" "\<not> is_file d" "parts d = path_parent (parts it)"
        using Cons.prems(3) by (auto simp: list_ex_iff)
      have "\<not> hidden d" using nh d(3) by (rule hidden_parent)
      then have "is_dir_entry d" using d(2) by (simp add: is_dir_entry_def)
      then have "path_stem (parts d) \<in> dom nav" using Cons.prems(1) d(1) by blast
      then show ?thesis using d(3) by simp
    qed
    then obtain gp kids where gk: "nav ?pstem = Some (gp, kids)" by auto
    obtain v where step: "walk_item cfg ex (pages, nav, media) it =
       (case add_to_navigation nav ?pstem ?stem of
          Inl e \<Rightarrow> Inl e
        | Inr nav1 \<Rightarrow> Inr (pages(?stem \<mapsto> v), nav1, media))"
      using walk_item_entry[OF True] by blast
    note add = add_to_navigation_cases[of nav ?pstem gp kids ?stem, OF gk]
    show ?thesis
    proof (cases "?stem \<in> dom nav")
      case dup: True
      then have "first_dup ks (entry_names (it # items)) = Some ?stem"
        using True Cons.prems(4) by (simp add: entry_names_Cons)
      moreover have "walk_items cfg ex (pages, nav, media) (it # items) = Inl (SameNameError ?stem)"
        using dup by (simp add: step add)
      ultimately show ?thesis by simp
    next
      case new: False
      let ?nav = "nav(?pstem \<mapsto> (gp, kids @ [?stem]), ?stem \<mapsto> (Some ?pstem, []))"
      let ?pages = "pages(?stem \<mapsto> v)"
      have step': "walk_item cfg ex (pages, nav, media) it = Inr (?pages, ?nav, media)"
        using new by (simp add: step add)
      have domn: "dom ?nav = insert ?stem (dom nav)" using pin by auto
      have seen': "\<forall>d \<in> set (seen @ [it]). is_dir_entry d \<longrightarrow> path_stem (parts d) \<in> dom ?nav"
        using Cons.prems(1) unfolding domn by auto
      have root': "[] \<in> dom ?nav" using Cons.prems(2) unfolding domn by simp
      have ks': "set (?stem # ks) = dom ?nav" using Cons.prems(4) unfolding domn by simp
      note IH = Cons.IH[of "seen @ [it]" ?nav "?stem # ks" ?pages media, OF seen' root' ord ks']
      have fd: "first_dup ks (entry_names (it # items)) = first_dup (?stem # ks) (entry_names items)"
        using True new Cons.prems(4) by (simp add: entry_names_Cons)
      have me: "media_entries cfg (it # items) = media_entries cfg items"
        using entry_not_media[OF True] by (rule media_entries_skip)
      have en: "set (entry_names (it # items)) = insert ?stem (set (entry_names items))"
        using True by (simp add: entry_names_Cons)
      have tr: "nav_tree nav \<Longrightarrow> nav_tree ?nav"
        by (rule nav_tree_upd[OF _ gk new])
      show ?thesis
      proof (cases "first_dup (?stem # ks) (entry_names items)")
        case None
        then obtain pages' nav' where r:
          "walk_items cfg ex (?pages, ?nav, media) items = Inr (pages', nav', media @ media_entries cfg items)"
          "dom pages' = dom ?pages \<union> set (entry_names items)"
          "dom nav' = dom ?nav \<union> set (entry_names items)"
          "nav_tree ?nav \<longrightarrow> nav_tree nav'"
          using IH[THEN conjunct2] by blast
        have "walk_items cfg ex (pages, nav, media) (it # items)
                = Inr (pages', nav', media @ media_entries cfg (it # items))"
          by (simp add: step' r(1) me)
        moreover have "dom pages' = dom pages \<union> set (entry_names (it # items))"
          unfolding r(2) en by auto
        moreover have "dom nav' = dom nav \<union> set (entry_names (it # items))"
          unfolding r(3) en domn by auto
        moreover have "nav_tree nav \<longrightarrow> nav_tree nav'"
          using tr r(4) by blast
        ultimately show ?thesis unfolding fd None by blast
      next
        case (Some s)
        then have "walk_items cfg ex (?pages, ?nav, media) items = Inl (SameNameError s)"
          using IH[THEN conjunct1] by blast
        then show ?thesis unfolding fd Some by (simp add: step')
      qed
    qed
  qed
qed

lemmas path_eval = hidden_def startswith_def path_stem_def path_name_def has_suffix_def
  rfind_dot_def path_suffix_def path_parent_def

lemmas entry_eval = is_entry_def is_dir_entry_def is_page_entry_def is_media_entry_def
  entry_names_def media_entries_def tree_walk_def


lemmas walk_eval = parse_input_directory_def walk_item_def add_to_navigation_def Let_def

lemma nav_tree_init: "nav_tree [[] \<mapsto> (None, [])]"
  by (rule nav_treeI) (auto simp: nav_parent_def nav_children_def intro: exI[of _ 0] split: if_splits)

lemma parse_char:
  assumes "tree_walk path globbed"
  shows "(\<forall>s. first_dup [[]] (entry_names (path # globbed)) = Some s \<longrightarrow>
              parse_input_directory cfg ex path globbed = Inl (SameNameError s))
         \<and> (first_dup [[]] (entry_names (path # globbed)) = None \<longrightarrow>
             (\<exists>pages' nav'.
                parse_input_directory cfg ex path globbed
                  = Inr (pages', nav', media_entries cfg (path # globbed))
                \<and> dom pages' = set (entry_names (path # globbed))
                \<and> dom nav' = insert [] (set (entry_names (path # globbed)))
                \<and> nav_tree nav'))"
  using walk_items_char[of "[]" "[[] \<mapsto> (None, [])]" "path # globbed" "[[]]" cfg ex Map.empty "[]"]
    assms nav_tree_init
  unfolding parse_input_directory_def tree_walk_def by simp

text \<open>
  Claim C2. The walker raises \<open>SameNameError\<close> as soon as an entry (a directory or a
  markdown page that is not a description file) has a name that is a key of the navigation
  table already, wherever in the tree the two entries are: the keys are the root key and
  the names of the entries met so far, so when \<open>s\<close> is the first entry name of the walk
  that is empty or repeats an earlier one, the walk ends with \<open>SameNameError s\<close>. Two
  directories named \<open>notes\<close> at different depths are the witness.
\<close>

theorem walker_raises_at_first_duplicate:
  assumes "tree_walk path globbed"
    and "first_dup [[]] (entry_names (path # globbed)) = Some s"
  shows "parse_input_directory cfg ex path globbed = Inl (SameNameError s)"
  using parse_char[OF assms(1), of cfg ex] assms(2) by blast

theorem walker_raises_at_first_duplicate_witness:
  "tree_walk (Dir [''notes''])
     [(Dir [''notes'', ''a'']), (Dir [''notes'', ''a'', ''notes''])]
   \<and> first_dup [[]] (entry_names (Dir [''notes''] #
     [(Dir [''notes'', ''a'']), (Dir [''notes'', ''a'', ''notes''])])) = Some ''notes''
   \<and> parse_input_directory (notes_config False) (\<lambda>p. False) (Dir [''notes''])
     [(Dir [''notes'', ''a'']), (Dir [''notes'', ''a'', ''notes''])]
       = Inl (SameNameError ''notes'')"
proof -
  have h1: "tree_walk (Dir [''notes''])
     [(Dir [''notes'', ''a'']), (Dir [''notes'', ''a'', ''notes''])]"
    by (simp add: tree_walk_def path_parent_def)
  have h2: "first_dup [[]] (entry_names (Dir [''notes''] #
     [(Dir [''notes'', ''a'']), (Dir [''notes'', ''a'', ''notes''])])) = Some ''notes''"
    by (simp add: entry_eval path_eval)
  show ?thesis
    using h1 h2 walker_raises_at_first_duplicate[OF h1 h2] by blast
qed

lemma first_dup_distinct: "first_dup [[]] names = None \<longleftrightarrow> distinct ([] # names)"
  by (auto simp: first_dup_None)

lemma length_filter_entry:
  "length (filter is_entry xs) = length (filter is_dir_entry xs) + length (filter is_page_entry xs)"
  by (induction xs) (auto simp: is_entry_def is_dir_entry_def is_page_entry_def)

text \<open>
  Claim C7, as stated, fails at the count: an entry with a hidden component is a directory
  of the input tree too, and the walker skips it. For the input directory \<open>notes\<close>
  holding the directory \<open>.obsidian\<close> the names are unique, there are two directories,
  and the pages table has one entry.
\<close>

theorem walker_hidden_directory_counterexample:
  "parse_input_directory (notes_config False) (\<lambda>p. False) (Dir [''notes''])
     [(Dir [''notes'', ''.obsidian''])]
     = Inr ([''notes'' \<mapsto> (None, [''index.html''])], [[] \<mapsto> (None, [''notes'']), ''notes'' \<mapsto> (Some [], [])], [])
   \<and> card (dom [''notes'' \<mapsto> (None :: path option, [''index.html''])]) = 1
   \<and> length (filter (\<lambda>it. \<not> is_file it) [(Dir [''notes'']), (Dir [''notes'', ''.obsidian''])]) = 2
   \<and> distinct (map (\<lambda>it. path_stem (parts it)) [(Dir [''notes'']), (Dir [''notes'', ''.obsidian''])])"
  by (simp add: walk_eval path_eval)


text \<open>
  Claim C7, amended. For every walk whose entries (the directories and the markdown pages
  that are not description files, hidden ones left out) have unique, non-empty names,
  \<open>parse_input_directory\<close> returns; the size of the pages table is the number of
  directories that are not hidden plus the number of markdown files that are neither
  hidden nor description files; the keys of the navigation table are the root key and
  the entry names; and the navigation table is a tree rooted at the root key (the empty
  name): every other key has a parent that is a key, and reaches the root by parent
  links, so there is no cycle.
\<close>

theorem walker_builds_tree:
  assumes "tree_walk path globbed"
    and "distinct ([] # entry_names (path # globbed))"
  shows "\<exists>pages nav media.
           parse_input_directory cfg ex path globbed = Inr (pages, nav, media)
           \<and> card (dom pages) = length (filter is_dir_entry (path # globbed))
                                  + length (filter is_page_entry (path # globbed))
           \<and> dom nav = insert [] (set (entry_names (path # globbed)))
           \<and> nav_tree nav"
proof -
  let ?items = "path # globbed"
  have nd: "first_dup [[]] (entry_names ?items) = None"
    using assms(2) by (simp only: first_dup_distinct)
  note pc = parse_char[OF assms(1), of cfg ex, THEN conjunct2, THEN mp, OF nd]
  from pc obtain pages nav where r:
    "parse_input_directory cfg ex path globbed = Inr (pages, nav, media_entries cfg ?items)"
    "dom pages = set (entry_names ?items)"
    "dom nav = insert [] (set (entry_names ?items))"
    "nav_tree nav"
    by (elim exE conjE)
  have "card (dom pages) = length (entry_names ?items)"
    unfolding r(2) using assms(2) by (simp add: distinct_card)
  also have "\<dots> = length (filter is_entry ?items)"
    by (simp add: entry_names_def)
  also have "\<dots> = length (filter is_dir_entry ?items) + length (filter is_page_entry ?items)"
    by (rule length_filter_entry)
  finally show ?thesis using r by blast
qed

theorem walker_builds_tree_witness:
  "tree_walk (Dir [''notes''])
     [(Dir [''notes'', ''.obsidian'']), (File [''notes'', ''intro.md'']), (Dir [''notes'', ''topic'']), (File [''notes'', ''pic.png'']), (File [''notes'', ''topic'', ''topic.md'']), (File [''notes'', ''topic'', ''deep.md''])]
   \<and> distinct ([] # entry_names (Dir [''notes''] #
     [(Dir [''notes'', ''.obsidian'']), (File [''notes'', ''intro.md'']), (Dir [''notes'', ''topic'']), (File [''notes'', ''pic.png'']), (File [''notes'', ''topic'', ''topic.md'']), (File [''notes'', ''topic'', ''deep.md''])]))
   \<and> (\<exists>pages nav media.
         parse_input_directory (notes_config False)
           (\<lambda>p. p = [''notes'', ''topic'', ''topic.md'']) (Dir [''notes''])
           [(Dir [''notes'', ''.obsidian'']), (File [''notes'', ''intro.md'']), (Dir [''notes'', ''topic'']), (File [''notes'', ''pic.png'']), (File [''notes'', ''topic'', ''topic.md'']), (File [''notes'', ''topic'', ''deep.md''])] = Inr (pages, nav, media)
         \<and> card (dom pages) = 4 \<and> nav_tree nav)"
proof -
  have h1: "tree_walk (Dir [''notes''])
     [(Dir [''notes'', ''.obsidian'']), (File [''notes'', ''intro.md'']), (Dir [''notes'', ''topic'']), (File [''notes'', ''pic.png'']), (File [''notes'', ''topic'', ''topic.md'']), (File [''notes'', ''topic'', ''deep.md''])]"
    by (simp add: tree_walk_def path_parent_def)
  have h2: "distinct ([] # entry_names (Dir [''notes''] #
     [(Dir [''notes'', ''.obsidian'']), (File [''notes'', ''intro.md'']), (Dir [''notes'', ''topic'']), (File [''notes'', ''pic.png'']), (File [''notes'', ''topic'', ''topic.md'']), (File [''notes'', ''topic'', ''deep.md''])]))"
    by (simp add: entry_eval path_eval)
  have n: "length (filter is_dir_entry (Dir [''notes''] #
     [(Dir [''notes'', ''.obsidian'']), (File [''notes'', ''intro.md'']), (Dir [''notes'', ''topic'']), (File [''notes'', ''pic.png'']), (File [''notes'', ''topic'', ''topic.md'']), (File [''notes'', ''topic'', ''deep.md''])]))
     + length (filter is_page_entry (Dir [''notes''] #
     [(Dir [''notes'', ''.obsidian'']), (File [''notes'', ''intro.md'']), (Dir [''notes'', ''topic'']), (File [''notes'', ''pic.png'']), (File [''notes'', ''topic'', ''topic.md'']), (File [''notes'', ''topic'', ''deep.md''])])) = 4"
    by (simp add: entry_eval path_eval)
  show ?thesis
    using h1 h2 walker_builds_tree[OF h1 h2, of "notes_config False"
           "\<lambda>p. p = [''notes'', ''topic'', ''topic.md'']"]
    unfolding n by blast
qed





subsection \<open>The inline patterns\<close>

lemmas strip_eval = strip_def is_space_def

lemma strip_plain [simp]: "strip ''Alpha'' = ''Alpha''" "strip ''png'' = ''png''"
  "strip ''photo.png'' = ''photo.png''" "strip ''clip.mp4'' = ''clip.mp4''"
  "strip ''file.xyz'' = ''file.xyz''" "strip ''Missing'' = ''Missing''"
  "strip ''Shown Text'' = ''Shown Text''" "strip ''Shown Text '' = ''Shown Text''"
  by (simp_all add: strip_eval)

lemma embed_pattern_examples:
  "ObsidianImagePattern_handleMatch ''photo.png'' None
     = Inr (Element ''img'' [(''src'', ''photo.png'')] None None [])"
  "ObsidianImagePattern_handleMatch ''clip.mp4'' None
     = Inr (Element ''video'' [(''controls'', [])] None None
              [Element ''source'' [(''src'', ''clip.mp4''), (''type'', ''video/mp4'')] None None []])"
  "ObsidianImagePattern_handleMatch ''file.xyz'' None = Inl (ValueError ''xyz: unknown file type'')"
  by (simp_all add: ObsidianImagePattern_handleMatch_def last_dot_segment_def
      IMAGE_EXTENSIONS_def VIDEO_EXTENSIONS_def VIDEO_TYPES_def Let_def)

text \<open>
  Claim C5 holds for a target with a dot: the text after the last dot decides between an
  \<open>img\<close> element, a \<open>video\<close> element with its \<open>source\<close> child and a
  \<open>ValueError\<close>, and strict mode plays no part. It fails for a target without a dot
  that is itself the name of an extension: \<^verbatim>\<open>url.split('.')[-1]\<close> is then the
  whole target, so \<^verbatim>\<open>![[png]]\<close>, which has no extension, yields an image
  element instead of the error.
\<close>

theorem embed_without_extension_accepted:
  "ObsidianImagePattern_handleMatch ''png'' None
     = Inr (Element ''img'' [(''src'', ''png'')] None None [])"
  by (simp add: ObsidianImagePattern_handleMatch_def last_dot_segment_def IMAGE_EXTENSIONS_def)




subsection \<open>ObsidianLinkProcessor.run\<close>

lemmas run_eval = run_def children_loop.simps process_child_def warn_def Let_def
  startswith_def truthy_def remove_at_def

lemma lenient_examples:
  "run False Map.empty
     (Element ''p'' [] (Some ''see '') None
        [Element ''a'' [(''href'', ''Missing'')] (Some ''Missing'') (Some '' now'') [],
         Element ''img'' [(''src'', ''x.png'')] None (Some ''after'') []])
   = Inr (Element ''p'' [] (Some ''see Missing now'') None [], [''Missing'', ''x.png''])"
  "run False Map.empty
     (Element ''p'' [] None None
        [Element ''em'' [] (Some ''x'') None [],
         Element ''a'' [(''href'', ''Missing'')] (Some ''Missing'') (Some '' now'') []])
   = Inr (Element ''p'' [] None None [Element ''em'' [] (Some ''x'') (Some ''Missing now'') []],
          [''Missing''])"
  by (simp_all add: run_eval)

text \<open>
  The loop refines the description of the specification on children it cannot fail on:
  in lenient mode it computes \<open>splice_children\<close>, in strict mode
  \<open>strict_children\<close>.
\<close>

lemma video_sources_lenient:
  assumes "list_all (\<lambda>source. map_of (attrib source) ''src'' \<noteq> None) sources"
    and "length (unresolved_sources links sources) \<le> (if present then 1 else 0)"
  shows "video_sources False links sources present log
         = Inr (map (rewrite_source links) sources,
                present \<and> unresolved_sources links sources = [],
                log @ unresolved_sources links sources)"
  using assms
proof (induction sources arbitrary: present log)
  case Nil
  then show ?case by (simp add: unresolved_sources_def)
next
  case (Cons source sources)
  from Cons.prems(1) obtain src where s: "map_of (attrib source) ''src'' = Some src"
    and rest: "list_all (\<lambda>source. map_of (attrib source) ''src'' \<noteq> None) sources"
    by auto
  show ?case
  proof (cases "\<not> startswith src ''http'' \<and> links src = None")
    case True
    then have u: "unresolved_sources links (source # sources) = src # unresolved_sources links sources"
      using s by (simp add: unresolved_sources_def)
    then have p: "present" and n: "length (unresolved_sources links sources) \<le> (if False then 1 else 0)"
      using Cons.prems(2) by (auto split: if_splits)
    have rw: "rewrite_source links source = source"
      using True s by (simp add: rewrite_source_def)
    show ?thesis
      using True s p u rw Cons.IH[OF rest n, of "log @ [src]"]
      by (simp add: warn_def)
  next
    case False
    then have u: "unresolved_sources links (source # sources) = unresolved_sources links sources"
      using s by (auto simp: unresolved_sources_def)
    have n: "length (unresolved_sources links sources) \<le> (if present then 1 else 0)"
      using Cons.prems(2) u by simp
    show ?thesis
      using False s u Cons.IH[OF rest n, of log]
      by (auto simp: rewrite_source_def split: option.splits)
  qed
qed

lemma remove_at_length: "remove_at (length xs) (xs @ y # ys) = xs @ ys"
  by (simp add: remove_at_def)

lemma nth_before_length: "xs \<noteq> [] \<Longrightarrow> (xs @ ys) ! (length xs - Suc 0) = last xs"
  by (simp add: nth_append last_conv_nth)

lemma update_before_length:
  "xs \<noteq> [] \<Longrightarrow> (xs @ ys)[length xs - Suc 0 := y] = butlast xs @ y # ys"
proof (induction xs rule: rev_induct)
  case Nil
  then show ?case by simp
next
  case (snoc x xs)
  show ?case by (simp add: list_update_append)
qed

lemma remove_after_update:
  assumes "xs \<noteq> []"
  shows "remove_at (length xs) ((xs @ e # es)[length xs - Suc 0 := y]) = (butlast xs @ [y]) @ es"
proof -
  have "(xs @ e # es)[length xs - Suc 0 := y] = (butlast xs @ [y]) @ e # es"
    using update_before_length[OF assms, of "e # es" y] by simp
  moreover have "length (butlast xs @ [y]) = length xs" using assms by simp
  ultimately show ?thesis using remove_at_length[of "butlast xs @ [y]" e es] by simp
qed

lemma process_child_lenient:
  assumes "resolvable links e"
  shows "process_child False links (parent_text, kept @ e # es, length kept, log)
         = Inr (case lenient_outcome links e of
                  Keep e1 \<Rightarrow> (parent_text, (kept @ [e1]) @ es, Suc (length kept), log)
                | Drop target \<Rightarrow> (parent_text, kept @ es, length kept, log @ [target])
                | Splice target txt \<Rightarrow>
                    if kept = []
                    then (Some ((if truthy parent_text then the parent_text else []) @ txt),
                          es, 0, log @ [target])
                    else (parent_text, (butlast kept @ [append_tail (last kept) txt]) @ es,
                          length kept, log @ [target]))"
proof -
  let ?kids = "kept @ e # es"
  have e: "?kids ! length kept = e" by simp
  consider (a) "tag e = ''a''" | (img) "tag e \<noteq> ''a''" "tag e = ''img''"
    | (video) "tag e \<noteq> ''a''" "tag e \<noteq> ''img''" "tag e = ''video''"
    | (other) "tag e \<noteq> ''a''" "tag e \<noteq> ''img''" "tag e \<noteq> ''video''"
    by blast
  then show ?thesis
  proof cases
    case a
    then obtain href where h: "map_of (attrib e) ''href'' = Some href"
      and t: "startswith href ''http'' \<or> links href \<noteq> None \<or> el_text e \<noteq> None"
      using assms by (auto simp: resolvable_def split: option.splits)
    have ta: "tag (?kids ! length kept) = ''a''" using a by simp
    show ?thesis
    proof (cases "startswith href ''http'' \<or> links href \<noteq> None")
      case True
      then show ?thesis
        unfolding process_child_link[OF ta] e using a h
        by (auto simp: lenient_outcome_def Let_def split: option.splits)
    next
      case False
      then obtain tx where tx: "el_text e = Some tx" using t by auto
      show ?thesis
      proof (cases "kept = []")
        case True
        then show ?thesis
          unfolding process_child_link[OF ta] e using a h False tx
          by (simp add: lenient_outcome_def Let_def remove_at_def)
      next
        case ne: False
        then have "length kept \<noteq> 0" by simp
        then show ?thesis
          unfolding process_child_link[OF ta] e using a h False tx ne
          by (simp add: lenient_outcome_def Let_def remove_after_update nth_before_length)
      qed
    qed
  next
    case img
    then obtain src where s: "map_of (attrib e) ''src'' = Some src"
      using assms by (auto simp: resolvable_def)
    have ti: "tag (?kids ! length kept) = ''img''" using img by simp
    show ?thesis
      unfolding process_child_image[OF ti] e using img s
      by (auto simp: lenient_outcome_def Let_def remove_at_length split: option.splits)
  next
    case video
    then have w: "list_all (\<lambda>source. map_of (attrib source) ''src'' \<noteq> None) (subelements e)"
      and n: "length (unresolved_sources links (subelements e)) \<le> (if True then 1 else 0)"
      using assms by (auto simp: resolvable_def)
    have tv: "tag (?kids ! length kept) = ''video''" using video by simp
    note vs = video_sources_lenient[OF w n, of log]
    show ?thesis
    proof (cases "unresolved_sources links (subelements e)")
      case Nil
      then show ?thesis
        unfolding process_child_video[OF tv] e vs using video
        by (simp add: lenient_outcome_def)
    next
      case (Cons src others)
      then have "others = []" using n by simp
      then show ?thesis
        unfolding process_child_video[OF tv] e vs using video Cons
        by (simp add: lenient_outcome_def remove_at_length)
    qed
  next
    case other
    have "process_child False links (parent_text, ?kids, length kept, log)
            = Inr (parent_text, ?kids, Suc (length kept), log)"
      by (rule process_child_other) (simp_all add: other)
    then show ?thesis using other by (simp add: lenient_outcome_def)
  qed
qed

lemma children_loop_lenient:
  assumes "list_all (resolvable links) es"
  shows "children_loop False links (parent_text, kept @ es, length kept, log)
         = Inr (splice_children links parent_text kept log es)"
  using assms
proof (induction es arbitrary: parent_text kept log)
  case Nil
  then show ?case by (simp add: children_loop.simps)
next
  case (Cons e es)
  then have r: "resolvable links e" and rs: "list_all (resolvable links) es" by simp_all
  have lt: "length kept < length (kept @ e # es)" by simp
  note pc = process_child_lenient[OF r, of parent_text kept es log]
  show ?case
  proof (cases "lenient_outcome links e")
    case (Keep e1)
    have "children_loop False links (parent_text, kept @ e # es, length kept, log)
          = children_loop False links (parent_text, (kept @ [e1]) @ es, length (kept @ [e1]), log)"
      by (subst children_loop.simps) (simp add: pc Keep)
    then show ?thesis using Cons.IH[OF rs, of parent_text "kept @ [e1]" log] Keep by simp
  next
    case (Drop target)
    have "children_loop False links (parent_text, kept @ e # es, length kept, log)
          = children_loop False links (parent_text, kept @ es, length kept, log @ [target])"
      by (subst children_loop.simps) (simp add: pc Drop)
    then show ?thesis using Cons.IH[OF rs, of parent_text kept "log @ [target]"] Drop by simp
  next
    case (Splice target stxt)
    show ?thesis
    proof (cases "kept = []")
      case True
      let ?pt = "Some ((if truthy parent_text then the parent_text else []) @ stxt)"
      have pc0: "process_child False links (parent_text, e # es, 0, log)
                   = Inr (?pt, es, 0, log @ [target])"
        using pc Splice True by simp
      have "children_loop False links (parent_text, kept @ e # es, length kept, log)
            = children_loop False links (?pt, [] @ es, length ([] :: element list), log @ [target])"
        unfolding True by (subst children_loop.simps) (simp add: pc0)
      then show ?thesis
        using Cons.IH[OF rs, of ?pt "[]" "log @ [target]"] Splice True by simp
    next
      case False
      let ?kept = "butlast kept @ [append_tail (last kept) stxt]"
      have l: "length ?kept = length kept" using False by simp
      have "children_loop False links (parent_text, kept @ e # es, length kept, log)
            = children_loop False links (parent_text, ?kept @ es, length ?kept, log @ [target])"
        unfolding l by (subst children_loop.simps) (simp add: pc Splice False)
      then show ?thesis
        using Cons.IH[OF rs, of parent_text ?kept "log @ [target]"] Splice False by simp
    qed
  qed
qed

lemma video_sources_strict:
  assumes "list_all (\<lambda>source. map_of (attrib source) ''src'' \<noteq> None) sources"
  shows "video_sources True links sources present log
         = (case unresolved_sources links sources of
              [] \<Rightarrow> Inr (map (rewrite_source links) sources, present, log)
            | src # others \<Rightarrow> Inl (UnknownLocalLinkWarning src))"
  using assms
proof (induction sources)
  case Nil
  then show ?case by (simp add: unresolved_sources_def)
next
  case (Cons source sources)
  from Cons.prems obtain src where s: "map_of (attrib source) ''src'' = Some src"
    and rest: "list_all (\<lambda>source. map_of (attrib source) ''src'' \<noteq> None) sources"
    by auto
  show ?case
  proof (cases "\<not> startswith src ''http'' \<and> links src = None")
    case True
    then have "unresolved_sources links (source # sources) = src # unresolved_sources links sources"
      using s by (simp add: unresolved_sources_def)
    then show ?thesis using True s by (simp add: warn_def)
  next
    case False
    then have u: "unresolved_sources links (source # sources) = unresolved_sources links sources"
      using s by (auto simp: unresolved_sources_def)
    show ?thesis
      using False s Cons.IH[OF rest] unfolding u
      by (cases "unresolved_sources links sources")
         (auto simp: rewrite_source_def split: option.splits)
  qed
qed

lemma process_child_strict:
  assumes "resolvable links e"
  shows "process_child True links (parent_text, kept @ e # es, length kept, log)
         = (case lenient_outcome links e of
              Keep e1 \<Rightarrow> Inr (parent_text, (kept @ [e1]) @ es, Suc (length kept), log)
            | Drop target \<Rightarrow> Inl (UnknownLocalLinkWarning target)
            | Splice target spliced \<Rightarrow> Inl (UnknownLocalLinkWarning target))"
proof -
  let ?kids = "kept @ e # es"
  have e: "?kids ! length kept = e" by simp
  consider (a) "tag e = ''a''" | (img) "tag e \<noteq> ''a''" "tag e = ''img''"
    | (video) "tag e \<noteq> ''a''" "tag e \<noteq> ''img''" "tag e = ''video''"
    | (other) "tag e \<noteq> ''a''" "tag e \<noteq> ''img''" "tag e \<noteq> ''video''"
    by blast
  then show ?thesis
  proof cases
    case a
    then obtain href where h: "map_of (attrib e) ''href'' = Some href"
      using assms by (auto simp: resolvable_def split: option.splits)
    have ta: "tag (?kids ! length kept) = ''a''" using a by simp
    show ?thesis
      unfolding process_child_link[OF ta] e using a h
      by (auto simp: lenient_outcome_def Let_def split: option.splits)
  next
    case img
    then obtain src where s: "map_of (attrib e) ''src'' = Some src"
      using assms by (auto simp: resolvable_def)
    have ti: "tag (?kids ! length kept) = ''img''" using img by simp
    show ?thesis
      unfolding process_child_image[OF ti] e using img s
      by (auto simp: lenient_outcome_def Let_def split: option.splits)
  next
    case video
    then have w: "list_all (\<lambda>source. map_of (attrib source) ''src'' \<noteq> None) (subelements e)"
      using assms by (auto simp: resolvable_def)
    have tv: "tag (?kids ! length kept) = ''video''" using video by simp
    note vs = video_sources_strict[OF w, of links True log]
    show ?thesis
      unfolding process_child_video[OF tv] e vs using video
      by (cases "unresolved_sources links (subelements e)") (simp_all add: lenient_outcome_def)
  next
    case other
    have "process_child True links (parent_text, ?kids, length kept, log)
            = Inr (parent_text, ?kids, Suc (length kept), log)"
      by (rule process_child_other) (simp_all add: other)
    then show ?thesis using other by (simp add: lenient_outcome_def)
  qed
qed

lemma children_loop_strict:
  assumes "list_all (resolvable links) es"
  shows "children_loop True links (parent_text, kept @ es, length kept, log)
         = (case strict_children links kept es of
              Inl err \<Rightarrow> Inl err
            | Inr kept1 \<Rightarrow> Inr (parent_text, kept1, log))"
  using assms
proof (induction es arbitrary: kept)
  case Nil
  then show ?case by (simp add: children_loop.simps)
next
  case (Cons e es)
  then have r: "resolvable links e" and rs: "list_all (resolvable links) es" by simp_all
  note pc = process_child_strict[OF r, of parent_text kept es log]
  show ?case
  proof (cases "lenient_outcome links e")
    case (Keep e1)
    have "children_loop True links (parent_text, kept @ e # es, length kept, log)
          = children_loop True links (parent_text, (kept @ [e1]) @ es, length (kept @ [e1]), log)"
      by (subst children_loop.simps) (simp add: pc Keep)
    then show ?thesis using Cons.IH[OF rs, of "kept @ [e1]"] Keep by simp
  next
    case (Drop target)
    then show ?thesis by (subst children_loop.simps) (simp add: pc)
  next
    case (Splice target spliced)
    then show ?thesis by (subst children_loop.simps) (simp add: pc)
  qed
qed

text \<open>
  Claim C3 holds for an anchor that carries a text and for images and videos: on
  \<open>resolvable\<close> children the lenient loop is \<open>splice_children\<close> (lemma
  \<open>children_loop_lenient\<close>). It fails for an unresolved anchor whose text is \<open>None\<close>, which is
  what the Markdown engine leaves when the display text of a link is markup only, as in
  \<^verbatim>\<open>[[Missing|**bold**]]\<close>: the anchor then holds a \<open>strong\<close> child and no
  text of its own. The loop guards the tail of the anchor, the text of the parent and the
  tail of the previous sibling against \<open>None\<close>, but not the text of the anchor, and
  \<^verbatim>\<open>parent.text += text\<close> raises \<open>TypeError\<close>: the anchor is not removed and
  nothing is spliced.
\<close>

theorem lenient_link_without_text_raises:
  "run False Map.empty
     (Element ''p'' [] (Some ''see '') None
        [Element ''a'' [(''href'', ''Missing'')] None None
           [Element ''strong'' [] (Some ''bold'') None []]])
   = Inl TypeError"
  by (simp add: run_eval)

text \<open>
  Claim C4 holds in strict mode: the first unresolved local target raises
  \<open>UnknownLocalLinkWarning\<close> with the target (lemma \<open>children_loop_strict\<close>), and
  nothing catches it. In lenient mode
  the warning is reported with the target and the run goes on to remove the element; for
  an unresolved anchor without a text of its own that removal raises \<open>TypeError\<close> (the
  defect shown for claim C3), so the run is aborted although strict mode is off.
\<close>

theorem unresolved_link_aborts_in_both_modes:
  "run True Map.empty
     (Element ''p'' [] None None
        [Element ''em'' [] (Some ''x'') None [],
         Element ''a'' [(''href'', ''Missing'')] None (Some '' tail'')
           [Element ''strong'' [] (Some ''bold'') None []]])
   = Inl (UnknownLocalLinkWarning ''Missing'')
   \<and> run False Map.empty
     (Element ''p'' [] None None
        [Element ''em'' [] (Some ''x'') None [],
         Element ''a'' [(''href'', ''Missing'')] None (Some '' tail'')
           [Element ''strong'' [] (Some ''bold'') None []]])
   = Inl TypeError"
  by (simp add: run_eval)

subsection \<open>make_navbar\<close>



lemma nav_parent_eq: "nav c = Some (gp, kids) \<Longrightarrow> nav_parent nav c = gp"
  by (simp add: nav_parent_def)








end
